theory Spec2Isabelle
  imports Main "HOL-Library.Sublist"
begin

section \<open>Python strings\<close>

text \<open>
  A Python \<open>str\<close> is a sequence of Unicode code points and \<open>len\<close> counts code points, so
  a string is a list of naturals. ASCII literals of the source are written through \<open>u\<close>.
\<close>

type_synonym ustr = "nat list"

definition u :: "string \<Rightarrow> ustr" where
  "u s = map of_char s"

text \<open>
  \<open>str.isspace\<close>, \<open>str.strip()\<close> and the regular-expression class \<open>\s\<close> all use CPython's
  table of Unicode whitespace.
\<close>

definition isspace :: "nat \<Rightarrow> bool" where
  "isspace c \<longleftrightarrow>
     (0x09 \<le> c \<and> c \<le> 0x0D) \<or> (0x1C \<le> c \<and> c \<le> 0x20) \<or> c = 0x85 \<or> c = 0xA0 \<or>
     c = 0x1680 \<or> (0x2000 \<le> c \<and> c \<le> 0x200A) \<or> c = 0x2028 \<or> c = 0x2029 \<or>
     c = 0x202F \<or> c = 0x205F \<or> c = 0x3000"

definition strip :: "ustr \<Rightarrow> ustr" where
  "strip s = rev (dropWhile isspace (rev (dropWhile isspace s)))"

text \<open>\<open>s[a:b]\<close> for \<open>0 \<le> a\<close>, \<open>0 \<le> b\<close>: empty when \<open>b \<le> a\<close>, cut at the end of \<open>s\<close>.\<close>

definition slice :: "ustr \<Rightarrow> nat \<Rightarrow> nat \<Rightarrow> ustr" where
  "slice s a b = drop a (take b s)"

text \<open>
  The tables of the Unicode database and of \<open>html.unescape\<close> that the scripts reach through
  the standard library are parameters of the model: \<open>isalpha\<close> is \<open>str.isalpha\<close> on one
  character, \<open>isword\<close> is the class \<open>\w\<close> of \<open>re\<close> (alphanumeric or underscore), and
  \<open>charref_sub\<close> is the substitution of character references that \<open>html.unescape\<close>
  performs on a string that contains an ampersand.
\<close>

record pyenv =
  isalpha :: "nat \<Rightarrow> bool"
  isword :: "nat \<Rightarrow> bool"
  charref_sub :: "ustr \<Rightarrow> ustr"

text \<open>
  Matching under \<open>re.IGNORECASE\<close> against a pattern character \<open>p\<close> that is ASCII and not
  an upper-case letter: the subject character is lowered (the only code points outside ASCII
  whose lower case is ASCII are U+0130 and U+212A), and the pattern letters \<open>i\<close> and \<open>s\<close>
  also match U+0131 and U+017F.
\<close>

definition ci_lower :: "nat \<Rightarrow> nat" where
  "ci_lower c = (if 0x41 \<le> c \<and> c \<le> 0x5A then c + 0x20
                 else if c = 0x130 then 0x69 else if c = 0x212A then 0x6B else c)"

definition ci_eq :: "nat \<Rightarrow> nat \<Rightarrow> bool" where
  "ci_eq p c \<longleftrightarrow> ci_lower c = p \<or> (p = 0x69 \<and> c = 0x131) \<or> (p = 0x73 \<and> c = 0x17F)"

fun ci_prefix :: "ustr \<Rightarrow> ustr \<Rightarrow> bool" where
  "ci_prefix [] s = True"
| "ci_prefix (p # ps) [] = False"
| "ci_prefix (p # ps) (c # cs) = (ci_eq p c \<and> ci_prefix ps cs)"

text \<open>\<open>any(pattern matches at some position of s)\<close>, for a predicate on the rest of \<open>s\<close>.\<close>

fun search :: "(ustr \<Rightarrow> bool) \<Rightarrow> ustr \<Rightarrow> bool" where
  "search P [] = P []"
| "search P (c # cs) = (P (c # cs) \<or> search P cs)"

definition ascii_letter :: "nat \<Rightarrow> bool" where
  "ascii_letter c \<longleftrightarrow> (0x41 \<le> c \<and> c \<le> 0x5A) \<or> (0x61 \<le> c \<and> c \<le> 0x7A)"

definition ascii_digit :: "nat \<Rightarrow> bool" where
  "ascii_digit c \<longleftrightarrow> 0x30 \<le> c \<and> c \<le> 0x39"

definition ascii_lower :: "ustr \<Rightarrow> ustr" where
  "ascii_lower w = map (\<lambda>c. if 0x41 \<le> c \<and> c \<le> 0x5A then c + 0x20 else c) w"

section \<open>translate_learncpp_pl.py: the prose classifier and split_ws\<close>

text \<open>\<open>URL_RE = ^(https?:|mailto:|tel:|www\.)\<close>, case-insensitive, searched: a match at 0.\<close>

definition URL_RE :: "ustr \<Rightarrow> bool" where
  "URL_RE t \<longleftrightarrow> ci_prefix (u ''http:'') t \<or> ci_prefix (u ''https:'') t \<or>
     ci_prefix (u ''mailto:'') t \<or> ci_prefix (u ''tel:'') t \<or> ci_prefix (u ''www.'') t"

text \<open>\<open>HAS_LETTER_RE\<close>: an ASCII letter or a code point from U+00C0 to U+017E.\<close>

definition HAS_LETTER_RE :: "ustr \<Rightarrow> bool" where
  "HAS_LETTER_RE t = list_ex (\<lambda>c. ascii_letter c \<or> (0xC0 \<le> c \<and> c \<le> 0x17E)) t"

definition should_translate :: "ustr \<Rightarrow> bool" where
  "should_translate text =
     (let t = strip text in
      if t = [] then False
      else if URL_RE t then False
      else if prefix (u ''{{'') t \<and> suffix (u ''}}'') t then False
      else if \<not> HAS_LETTER_RE t then False
      else True)"

text \<open>
  \<open>LEAD_WS_RE = ^\s*\<close> matched at 0 is the longest whitespace prefix; \<open>TRAIL_WS_RE = \s*$\<close>
  searched is the longest whitespace suffix. The same function is in both scripts.
\<close>

definition split_ws :: "ustr \<Rightarrow> ustr \<times> ustr \<times> ustr" where
  "split_ws text =
     (let lead = takeWhile isspace text;
          trail = rev (takeWhile isspace (rev text));
          core = slice text (length lead)
                   (if length trail \<noteq> 0 then length text - length trail else length text)
      in (lead, core, trail))"

section \<open>translate_code_comments_pl.py: the comment classifier and the quality gate\<close>

text \<open>\<open>WORD_RE.findall\<close> for \<open>[A-Za-z]{2,}\<close>: the maximal runs of two or more ASCII letters.\<close>

fun findall_words :: "ustr \<Rightarrow> ustr \<Rightarrow> ustr list" where
  "findall_words cur [] = (if 2 \<le> length cur then [cur] else [])"
| "findall_words cur (c # cs) =
     (if ascii_letter c then findall_words (cur @ [c]) cs
      else (if 2 \<le> length cur then [cur] else []) @ findall_words [] cs)"

definition WORD_RE_findall :: "ustr \<Rightarrow> ustr list" where
  "WORD_RE_findall t = findall_words [] t"

text \<open>\<open>URL_RE = (https?://|www\.)\<close> of the comment script, case-insensitive, anywhere.\<close>

definition URL_RE_cc :: "ustr \<Rightarrow> bool" where
  "URL_RE_cc t = search (\<lambda>r. ci_prefix (u ''http://'') r \<or> ci_prefix (u ''https://'') r \<or>
     ci_prefix (u ''www.'') r) t"

definition pl_char :: "nat \<Rightarrow> bool" where
  "pl_char c \<longleftrightarrow> c \<in> set [0x105, 0x107, 0x119, 0x142, 0x144, 0xF3, 0x15B, 0x17A, 0x17C,
                             0x104, 0x106, 0x118, 0x141, 0x143, 0xD3, 0x15A, 0x179, 0x17B]"

definition PL_CHARS_RE :: "ustr \<Rightarrow> bool" where
  "PL_CHARS_RE t = list_ex pl_char t"

text \<open>
  \<open>MOJIBAKE_RE\<close>: U+00C3 or U+00C2 followed by any character but a newline, or one of the
  sequences starting with U+00E2.
\<close>

definition MOJIBAKE_RE :: "ustr \<Rightarrow> bool" where
  "MOJIBAKE_RE t = search (\<lambda>r.
     (case r of a # b # _ \<Rightarrow> (a = 0xC3 \<or> a = 0xC2) \<and> b \<noteq> 0x0A | _ \<Rightarrow> False) \<or>
     prefix [0xE2, 0x20AC, 0x2122] r \<or> prefix [0xE2, 0x20AC, 0x153] r \<or>
     prefix [0xE2, 0x20AC] r \<or> prefix [0xE2, 0x20AC, 0x201C] r \<or>
     prefix [0xE2, 0x20AC, 0x201D] r \<or> prefix [0xE2, 0x201E, 0xA2] r) t"

definition EN_HINT_WORDS :: "ustr list" where
  "EN_HINT_WORDS = map u
     [''a'', ''an'', ''and'', ''are'', ''as'', ''be'', ''because'', ''before'', ''both'', ''but'',
      ''call'', ''called'', ''can'', ''class'', ''copy'', ''create'', ''created'', ''creating'',
      ''destroyed'', ''directly'', ''does'', ''each'', ''else'', ''example'', ''for'', ''from'',
      ''function'', ''get'', ''here'', ''if'', ''in'', ''is'', ''it'', ''later'', ''legal'',
      ''line'', ''loop'', ''make'', ''name'', ''new'', ''not'', ''now'', ''object'', ''objects'',
      ''only'', ''or'', ''over'', ''pointer'', ''prevent'', ''print'', ''reference'',
      ''references'', ''set'', ''step'', ''still'', ''string'', ''that'', ''the'', ''these'',
      ''this'', ''those'', ''through'', ''to'', ''true'', ''use'', ''used'', ''using'', ''value'',
      ''values'', ''we'', ''when'', ''where'', ''which'', ''while'', ''with'', ''you'', ''your'']"

text \<open>The substring test \<open>sub in text\<close>.\<close>

definition contains :: "ustr \<Rightarrow> ustr \<Rightarrow> bool" where
  "contains sub text = search (prefix sub) text"

text \<open>
  \<open>re.search(r"\b[A-Za-z_][A-Za-z0-9_]*\s*\(", text)\<close>: \<open>prev\<close> tells whether the character
  before the current position is a word character, so that \<open>\b\<close> holds in front of an
  identifier start exactly when \<open>prev\<close> is false.
\<close>

definition ident_start :: "nat \<Rightarrow> bool" where
  "ident_start c \<longleftrightarrow> ascii_letter c \<or> c = 0x5F"

definition ident_char :: "nat \<Rightarrow> bool" where
  "ident_char c \<longleftrightarrow> ascii_letter c \<or> ascii_digit c \<or> c = 0x5F"

fun call_like :: "pyenv \<Rightarrow> bool \<Rightarrow> ustr \<Rightarrow> bool" where
  "call_like env prev [] = False"
| "call_like env prev (c # cs) =
     ((\<not> prev \<and> ident_start c \<and>
        (case dropWhile isspace (dropWhile ident_char cs) of [] \<Rightarrow> False | d # _ \<Rightarrow> d = 0x28))
      \<or> call_like env (isword env c) cs)"

definition is_mostly_code_like :: "pyenv \<Rightarrow> ustr \<Rightarrow> bool" where
  "is_mostly_code_like env text =
     (if contains (u ''::'') text then True
      else if 0x3C \<in> set text \<or> 0x3E \<in> set text \<or> 0x7B \<in> set text \<or> 0x7D \<in> set text then True
      else if 0x3B \<in> set text \<or> contains (u ''->'') text then True
      else if call_like env False text then True
      else False)"

definition english_score :: "ustr \<Rightarrow> nat \<times> nat" where
  "english_score text =
     (let words = WORD_RE_findall text in
      if words = [] then (0, 0)
      else (length (filter (\<lambda>w. ascii_lower w \<in> set EN_HINT_WORDS) words), length words))"

text \<open>
  The ratio \<open>letters / max(len(t), 1)\<close> is compared with a decimal constant in floating
  point; the quotient is correctly rounded and the denominators are string lengths, so the
  comparison is the one of the exact fractions, written here with integers.
\<close>

definition letter_count :: "pyenv \<Rightarrow> ustr \<Rightarrow> nat" where
  "letter_count env t = length (filter (isalpha env) t)"

definition looks_english :: "pyenv \<Rightarrow> ustr \<Rightarrow> bool" where
  "looks_english env text =
     (let t = strip text in
      if t = [] \<or> PL_CHARS_RE t then False
      else
        let (hits, total) = english_score t in
        if 2 \<le> hits then True
        else if 6 \<le> total \<and> 1 \<le> hits then True
        else 8 \<le> total \<and> 1 \<le> hits \<and> 55 * max (length t) 1 < 100 * letter_count env t)"

definition should_translate_comment :: "pyenv \<Rightarrow> ustr \<Rightarrow> bool" where
  "should_translate_comment env core =
     (let t = strip core in
      if t = [] then False
      else if length t < 3 \<or> 500 < length t then False
      else if URL_RE_cc t then False
      else if PL_CHARS_RE t then False
      else
        let words = WORD_RE_findall t in
        if words = [] then False
        else
          let english_hits = fst (english_score t);
              letters = letter_count env t
          in
          if is_mostly_code_like env t \<and> english_hits = 0 \<and> length words \<le> 8 then False
          else if 1 \<le> english_hits then True
          else if \<not> is_mostly_code_like env t \<and> 3 \<le> length words
                  \<and> 65 * max (length t) 1 < 100 * letters then True
          else if 5 \<le> length words \<and> 55 * max (length t) 1 < 100 * letters then True
          else False)"

definition is_bad_translation :: "pyenv \<Rightarrow> ustr \<Rightarrow> ustr \<Rightarrow> bool" where
  "is_bad_translation env source translated =
     (let src = strip source; tr = strip translated in
      if tr = [] then True
      else if MOJIBAKE_RE tr then True
      else if src = tr \<and> should_translate_comment env src then True
      else if looks_english env src \<and> looks_english env tr then True
      else False)"

text \<open>
  An instance of the tables for evaluation: it agrees with the Unicode database on the code
  points below U+0180 and leaves a string with character references unchanged.
\<close>

definition latin_isalpha :: "nat \<Rightarrow> bool" where
  "latin_isalpha c \<longleftrightarrow> ascii_letter c \<or> c = 0xAA \<or> c = 0xB5 \<or> c = 0xBA \<or>
     (0xC0 \<le> c \<and> c \<le> 0xD6) \<or> (0xD8 \<le> c \<and> c \<le> 0xF6) \<or> (0xF8 \<le> c \<and> c \<le> 0x17F)"

definition latin_isword :: "nat \<Rightarrow> bool" where
  "latin_isword c \<longleftrightarrow> latin_isalpha c \<or> ascii_digit c \<or> c = 0x5F \<or>
     c = 0xB2 \<or> c = 0xB3 \<or> c = 0xB9 \<or> c = 0xBC \<or> c = 0xBD \<or> c = 0xBE"

definition latin_env :: pyenv where
  "latin_env = \<lparr>isalpha = latin_isalpha, isword = latin_isword, charref_sub = (\<lambda>s. s)\<rparr>"

section \<open>The batch marker protocol\<close>

text \<open>\<open>str(n)\<close> for a natural number, as the f-strings of the markers format it.\<close>

fun dec :: "nat \<Rightarrow> ustr" where
  "dec n = (if n < 10 then [0x30 + n] else dec (n div 10) @ [0x30 + n mod 10])"

declare dec.simps [simp del]

definition marker :: "nat \<Rightarrow> ustr" where
  "marker i = u ''<<<M'' @ dec i @ u ''>>>''"

definition MEND :: ustr where
  "MEND = u ''<<<MEND>>>''"

text \<open>
  \<open>build_batches\<close> of translate_learncpp_pl.py. The loop state is \<open>batches\<close>, \<open>current\<close> and
  \<open>current_len\<close>; after a flush the marker and \<open>extra\<close> are computed again for position 0.
\<close>

fun build_batches_loop ::
  "nat \<Rightarrow> ('a \<times> ustr) list \<Rightarrow> ('a \<times> ustr) list list \<Rightarrow> ('a \<times> ustr) list \<Rightarrow> nat
     \<Rightarrow> ('a \<times> ustr) list list" where
  "build_batches_loop max_len [] batches current current_len =
     (if current \<noteq> [] then batches @ [current] else batches)"
| "build_batches_loop max_len ((idx, txt) # items) batches current current_len =
     (let extra = length (marker (length current)) + length txt in
      if current \<noteq> [] \<and> max_len < current_len + extra then
        let extra = length (marker 0) + length txt in
        build_batches_loop max_len items (batches @ [current]) [(idx, txt)] (length MEND + extra)
      else build_batches_loop max_len items batches (current @ [(idx, txt)]) (current_len + extra))"

definition build_batches :: "('a \<times> ustr) list \<Rightarrow> nat \<Rightarrow> ('a \<times> ustr) list list" where
  "build_batches items max_len = build_batches_loop max_len items [] [] (length MEND)"

text \<open>
  \<open>build_batches\<close> of translate_code_comments_pl.py: after a flush \<open>extra\<close> keeps the value
  computed for the position in the batch just closed.
\<close>

fun build_batches_cc_loop ::
  "nat \<Rightarrow> ('a \<times> ustr) list \<Rightarrow> ('a \<times> ustr) list list \<Rightarrow> ('a \<times> ustr) list \<Rightarrow> nat
     \<Rightarrow> ('a \<times> ustr) list list" where
  "build_batches_cc_loop max_len [] batches current current_len =
     (if current \<noteq> [] then batches @ [current] else batches)"
| "build_batches_cc_loop max_len ((idx, txt) # items) batches current current_len =
     (let extra = length (marker (length current)) + length txt in
      if current \<noteq> [] \<and> max_len < current_len + extra then
        build_batches_cc_loop max_len items (batches @ [current]) [(idx, txt)] (length MEND + extra)
      else build_batches_cc_loop max_len items batches (current @ [(idx, txt)]) (current_len + extra))"

definition build_batches_cc :: "('a \<times> ustr) list \<Rightarrow> nat \<Rightarrow> ('a \<times> ustr) list list" where
  "build_batches_cc items max_len = build_batches_cc_loop max_len items [] [] (length MEND)"

text \<open>
  The payload of \<open>translate_group_payload\<close>:
  \<open>"".join(f"<<<M{i}>>>{t}" for i, t in enumerate(texts)) + "<<<MEND>>>"\<close>.
\<close>

definition build_payload :: "ustr list \<Rightarrow> ustr" where
  "build_payload texts = concat (map (\<lambda>(i, t). marker i @ t) (enumerate 0 texts)) @ MEND"

text \<open>
  \<open>s.find(sub, start)\<close> with \<open>None\<close> for -1: the least index from \<open>start\<close> on at which \<open>sub\<close>
  occurs; no index when \<open>start\<close> is beyond the end.
\<close>

fun find_at :: "ustr \<Rightarrow> ustr \<Rightarrow> nat \<Rightarrow> nat option" where
  "find_at sub [] k = (if sub = [] then Some k else None)"
| "find_at sub (c # cs) k = (if prefix sub (c # cs) then Some k else find_at sub cs (Suc k))"

definition py_find :: "ustr \<Rightarrow> ustr \<Rightarrow> nat \<Rightarrow> nat option" where
  "py_find s sub start = (if length s < start then None else find_at sub (drop start s) start)"

text \<open>
  The body of the loop \<open>for i in range(len(texts))\<close> of \<open>translate_group_payload\<close>; \<open>None\<close> is
  the early \<open>return None\<close>.
\<close>

definition parse_item :: "ustr \<Rightarrow> nat \<Rightarrow> nat \<Rightarrow> ustr option" where
  "parse_item translated n i =
     (let next_marker = (if i + 1 < n then marker (i + 1) else MEND) in
      case py_find translated (marker i) 0 of
        None \<Rightarrow> None
      | Some start0 \<Rightarrow>
          let start = start0 + length (marker i) in
          (case py_find translated next_marker start of
             None \<Rightarrow> None
           | Some end \<Rightarrow> Some (slice translated start end)))"

fun parse_items :: "ustr \<Rightarrow> nat \<Rightarrow> nat list \<Rightarrow> ustr list option" where
  "parse_items translated n [] = Some []"
| "parse_items translated n (i # is) =
     (case parse_item translated n i of
        None \<Rightarrow> None
      | Some x \<Rightarrow> map_option ((#) x) (parse_items translated n is))"

definition parse_payload :: "nat \<Rightarrow> ustr \<Rightarrow> ustr list option" where
  "parse_payload n translated =
     (if \<not> contains MEND translated then None else parse_items translated n [0..<n])"

text \<open>
  The translation backend is an external, stateful service: a call takes the state of the
  backend and the text, and returns the translated text, or \<open>None\<close> when the call raises, and
  the next state.
\<close>

type_synonym 's backend = "'s \<Rightarrow> ustr \<Rightarrow> ustr option \<times> 's"

datatype 'a result = Raise | Return 'a

definition translate_group_payload ::
  "'s backend \<Rightarrow> 's \<Rightarrow> ustr list \<Rightarrow> ustr list option result \<times> 's" where
  "translate_group_payload translator s texts =
     (case translator s (build_payload texts) of
        (None, s') \<Rightarrow> (Raise, s')
      | (Some translated, s') \<Rightarrow> (Return (parse_payload (length texts) translated), s'))"

text \<open>The encoded length of a batch: the length of the payload built from its fragments.\<close>

definition encoded_len :: "('a \<times> ustr) list \<Rightarrow> nat" where
  "encoded_len b = length (build_payload (map snd b))"

text \<open>
  A batch is within the budget when its encoded length does not exceed \<open>max_len\<close>, or when it
  holds a single fragment (which the loop never splits).
\<close>

definition within_budget :: "nat \<Rightarrow> ('a \<times> ustr) list \<Rightarrow> bool" where
  "within_budget max_len b \<longleftrightarrow> encoded_len b \<le> max_len \<or> length b = 1"

text \<open>
  Auxiliary notions for the proofs about the payload: a marker with body \<open>b\<close>, the
  concatenation of marked fragments, and the fragments of a list tagged with their decimal
  positions from \<open>k\<close> on.
\<close>

definition mk :: "ustr \<Rightarrow> ustr" where
  "mk b = [0x3C, 0x3C, 0x3C, 0x4D] @ b @ [0x3E, 0x3E, 0x3E]"

definition segs :: "(ustr \<times> ustr) list \<Rightarrow> ustr" where
  "segs ps = concat (map (\<lambda>(b, t). mk b @ t) ps)"

definition tagged :: "nat \<Rightarrow> ustr list \<Rightarrow> (ustr \<times> ustr) list" where
  "tagged k texts = map (\<lambda>(i, t). (dec i, t)) (enumerate k texts)"

section \<open>translate_learncpp_pl.py: translate_missing\<close>











section \<open>translate_code_comments_pl.py: postprocess_translation, translate_one, translate_missing\<close>





















section \<open>translate_code_comments_pl.py: find_comment_spans\<close>
















section \<open>Trimming and split_ws\<close>

lemma strip_decomp:
  assumes "\<exists>c\<in>set s. \<not> isspace c"
  shows "s = takeWhile isspace s @ strip s @ rev (takeWhile isspace (rev s))"
    and "strip s \<noteq> []" and "\<not> isspace (hd (strip s))" and "\<not> isspace (last (strip s))"
proof -
  let ?d = "dropWhile isspace s"
  have d_ne: "?d \<noteq> []" using assms by simp
  then have hd_d: "\<not> isspace (hd ?d)" by (rule hd_dropWhile)
  have ex_d: "\<exists>c\<in>set (rev ?d). \<not> isspace c"
    using d_ne hd_d by (metis hd_in_set set_rev)
  have "rev s = rev ?d @ rev (takeWhile isspace s)"
    by (metis rev_append takeWhile_dropWhile_id)
  moreover obtain x where "x \<in> set (rev ?d)" "\<not> isspace x" using ex_d by blast
  ultimately have tw: "takeWhile isspace (rev s) = takeWhile isspace (rev ?d)"
    by (simp add: takeWhile_append1)
  have "rev ?d = takeWhile isspace (rev ?d) @ dropWhile isspace (rev ?d)" by simp
  then have "?d = rev (dropWhile isspace (rev ?d)) @ rev (takeWhile isspace (rev ?d))"
    by (metis rev_append rev_rev_ident)
  then have "?d = strip s @ rev (takeWhile isspace (rev s))"
    by (simp add: strip_def tw)
  then show "s = takeWhile isspace s @ strip s @ rev (takeWhile isspace (rev s))"
    by (metis takeWhile_dropWhile_id)
  have dd: "dropWhile isspace (rev ?d) \<noteq> []"
    using ex_d by simp
  then show ne: "strip s \<noteq> []" by (simp add: strip_def)
  have "\<not> isspace (hd (dropWhile isspace (rev ?d)))" using dd by (rule hd_dropWhile)
  then show "\<not> isspace (last (strip s))" using dd by (simp add: strip_def last_rev)
  have "hd (strip s) = hd ?d"
  proof -
    have "?d = strip s @ rev (takeWhile isspace (rev s))" by fact
    then show ?thesis using ne by (metis hd_append2)
  qed
  then show "\<not> isspace (hd (strip s))" using hd_d by simp
qed

lemma split_ws_nonblank:
  assumes "\<exists>c\<in>set s. \<not> isspace c"
  shows "split_ws s = (takeWhile isspace s, strip s, rev (takeWhile isspace (rev s)))"
proof -
  let ?l = "takeWhile isspace s" and ?t = "rev (takeWhile isspace (rev s))"
  have dec: "s = ?l @ strip s @ ?t" using strip_decomp(1)[OF assms] .
  have len: "length s = length ?l + length (strip s) + length ?t"
    by (metis append.assoc dec length_append)
  have a: "slice s (length ?l) (length s - length ?t) = strip s"
  proof -
    have "take (length s - length ?t) s = take (length ?l + length (strip s)) ((?l @ strip s) @ ?t)"
      using len dec by simp
    also have "\<dots> = ?l @ strip s" by (simp del: append_assoc)
    finally show ?thesis by (simp add: slice_def)
  qed
  have b: "?t = [] \<Longrightarrow> slice s (length ?l) (length s) = strip s"
    using a by simp
  show ?thesis
    unfolding split_ws_def Let_def using a b by auto
qed

lemma split_ws_blank:
  assumes "\<forall>c\<in>set s. isspace c"
  shows "split_ws s = (s, [], s)"
proof -
  have t1: "takeWhile isspace s = s" using assms by (simp add: takeWhile_eq_all_conv)
  have t2: "takeWhile isspace (rev s) = rev s" using assms by (simp add: takeWhile_eq_all_conv)
  show ?thesis unfolding split_ws_def slice_def Let_def t1 t2 by simp
qed




lemma strip_fixed:
  assumes "t \<noteq> []" "\<not> isspace (hd t)" "\<not> isspace (last t)"
  shows "strip t = t"
proof -
  have a: "dropWhile isspace t = t" using assms(1,2) by (cases t) auto
  have "rev t \<noteq> []" and "hd (rev t) = last t" using assms(1) by (simp_all add: hd_rev)
  then have b: "dropWhile isspace (rev t) = rev t" using assms(3)
    by (metis dropWhile_eq_self_iff)
  show ?thesis by (simp add: strip_def a b)
qed

lemma strip_blank: "\<forall>c\<in>set s. isspace c \<Longrightarrow> strip s = []"
proof -
  assume "\<forall>c\<in>set s. isspace c"
  then have d: "dropWhile isspace s = []" by simp
  show ?thesis unfolding strip_def d by simp
qed

lemma strip_idem: "strip (strip s) = strip s"
proof (cases "\<exists>c\<in>set s. \<not> isspace c")
  case True
  from strip_decomp(2-4)[OF True] show ?thesis by (rule strip_fixed)
next
  case False
  then have "strip s = []" by (simp add: strip_blank)
  then show ?thesis by (simp add: strip_blank)
qed

lemma set_strip: "set (strip s) \<subseteq> set s"
proof -
  have "set (strip s) \<subseteq> set (dropWhile isspace s)"
    unfolding strip_def set_rev using set_dropWhileD by fastforce
  also have "\<dots> \<subseteq> set s" using set_dropWhileD by fastforce
  finally show ?thesis .
qed

lemma strip_nonempty_iff: "strip s \<noteq> [] \<longleftrightarrow> (\<exists>c\<in>set s. \<not> isspace c)"
  using strip_blank strip_decomp(2) by blast

lemma strip_hd: "strip s \<noteq> [] \<Longrightarrow> \<not> isspace (hd (strip s))"
  using strip_decomp(3) strip_nonempty_iff by blast

lemma should_translate_comment_strip:
  "should_translate_comment env (strip core) = should_translate_comment env core"
  by (simp add: should_translate_comment_def strip_idem)


text \<open>
  C10 (amended). For a string with a character that is not whitespace, \<open>split_ws\<close> returns
  \<open>(lead, core, trail)\<close> with \<open>lead @ core @ trail\<close> the input, \<open>lead\<close> and \<open>trail\<close> whitespace
  only, and \<open>core\<close> starting and ending with a character that is not whitespace. For a
  non-empty string of whitespace only, \<open>lead\<close> and \<open>trail\<close> are both the whole input and
  \<open>core\<close> is empty, so the three parts do not concatenate to the input. For the empty
  string all three parts are empty (and they do concatenate to the input).
\<close>

theorem split_ws_reconstruction:
  "((\<exists>c\<in>set text. \<not> isspace c) \<longrightarrow>
      (\<exists>lead core trail. split_ws text = (lead, core, trail) \<and> lead @ core @ trail = text \<and>
         list_all isspace lead \<and> list_all isspace trail \<and>
         core \<noteq> [] \<and> \<not> isspace (hd core) \<and> \<not> isspace (last core))) \<and>
   (text \<noteq> [] \<and> list_all isspace text \<longrightarrow>
      split_ws text = (text, [], text) \<and> text @ [] @ text \<noteq> text) \<and>
   split_ws [] = ([], [], [])"
proof (intro conjI impI)
  assume ne: "\<exists>c\<in>set text. \<not> isspace c"
  have "list_all isspace (takeWhile isspace text)"
    by (simp add: list_all_iff) (meson set_takeWhileD)
  moreover have "list_all isspace (rev (takeWhile isspace (rev text)))"
    by (simp add: list_all_iff) (meson set_takeWhileD)
  ultimately show "\<exists>lead core trail. split_ws text = (lead, core, trail) \<and>
      lead @ core @ trail = text \<and> list_all isspace lead \<and> list_all isspace trail \<and>
      core \<noteq> [] \<and> \<not> isspace (hd core) \<and> \<not> isspace (last core)"
    using split_ws_nonblank[OF ne] strip_decomp[OF ne] by auto
next
  assume "text \<noteq> [] \<and> list_all isspace text"
  then show "split_ws text = (text, [], text)"
    by (simp add: split_ws_blank list_all_iff)
next
  assume "text \<noteq> [] \<and> list_all isspace text"
  then show "text @ [] @ text \<noteq> text" by simp
next
  show "split_ws [] = ([], [], [])" by (simp add: split_ws_def slice_def)
qed

theorem split_ws_reconstruction_witness:
  "(\<exists>c\<in>set (u '' ab c  ''). \<not> isspace c) \<and>
   split_ws (u '' ab c  '') = (u '' '', u ''ab c'', u ''  '') \<and>
   u '' '' @ u ''ab c'' @ u ''  '' = u '' ab c  '' \<and>
   u ''  '' \<noteq> [] \<and> list_all isspace (u ''  '') \<and>
   split_ws (u ''  '') = (u ''  '', [], u ''  '') \<and> u ''  '' @ [] @ u ''  '' \<noteq> u ''  ''"
proof -
  have a: "\<exists>c\<in>set (u '' ab c  ''). \<not> isspace c" by (simp add: u_def isspace_def)
  have b: "split_ws (u '' ab c  '') = (u '' '', u ''ab c'', u ''  '')"
    by (simp add: u_def isspace_def split_ws_def slice_def Let_def)
  have c: "u '' '' @ u ''ab c'' @ u ''  '' = u '' ab c  ''" by (simp add: u_def)
  have d: "u ''  '' \<noteq> [] \<and> list_all isspace (u ''  '')" by (simp add: u_def isspace_def)
  show ?thesis
    using split_ws_reconstruction[of "u '' ab c  ''"] split_ws_reconstruction[of "u ''  ''"] a b c d
    by blast
qed

theorem split_ws_empty_counterexample:
  "(case split_ws [] of (lead, core, trail) \<Rightarrow> lead @ core @ trail = [])"
  by (simp add: split_ws_def slice_def)

section \<open>The quality gate\<close>

text \<open>The definitions that the evaluation of a classifier on a concrete string unfolds.\<close>

lemmas cls_defs = should_translate_comment_def strip_def isspace_def u_def URL_RE_cc_def
  PL_CHARS_RE_def pl_char_def WORD_RE_findall_def ascii_letter_def english_score_def
  ascii_lower_def EN_HINT_WORDS_def ci_eq_def ci_lower_def Let_def is_mostly_code_like_def
  contains_def letter_count_def latin_env_def latin_isalpha_def latin_isword_def
  ident_start_def ident_char_def ascii_digit_def

text \<open>
  C7. \<open>is_bad_translation\<close> returns true for every candidate that is empty after trimming, and
  for every candidate identical to a source fragment that \<open>should_translate_comment\<close> accepts.
\<close>

theorem is_bad_translation_gate:
  "(strip translated = [] \<longrightarrow> is_bad_translation env source translated) \<and>
   (translated = source \<and> should_translate_comment env source \<longrightarrow>
      is_bad_translation env source translated)"
  by (simp add: is_bad_translation_def should_translate_comment_strip)

theorem is_bad_translation_gate_witness:
  "strip (u ''  '') = [] \<and> is_bad_translation latin_env (u ''return value'') (u ''  '') \<and>
   should_translate_comment latin_env (u ''return value'') \<and>
   is_bad_translation latin_env (u ''return value'') (u ''return value'')"
proof -
  have a: "strip (u ''  '') = []" by (simp add: strip_def u_def isspace_def)
  have b: "should_translate_comment latin_env (u ''return value'')" by (simp add: cls_defs)
  show ?thesis
    using is_bad_translation_gate[of "u ''  ''" latin_env "u ''return value''"]
      is_bad_translation_gate[of "u ''return value''" latin_env "u ''return value''"] a b
    by blast
qed

section \<open>The classifiers\<close>

lemma pl_char_facts:
  assumes "pl_char c"
  shows "0xC0 \<le> c \<and> c \<le> 0x17E" and "ci_lower c = c" and "\<not> isspace c"
    and "c \<noteq> 0x7B"
  using assms by (auto simp: pl_char_def ci_lower_def isspace_def)

lemma pl_not_url:
  assumes "pl_char c" shows "\<not> URL_RE (c # cs)"
  using pl_char_facts[OF assms] assms
  by (auto simp: URL_RE_def u_def ci_eq_def pl_char_def)

text \<open>
  C4 (amended). For every fragment whose non-whitespace characters are all Polish letters of
  \<open>PL_CHARS_RE\<close>, the comment classifier \<open>should_translate_comment\<close> rejects it; the prose
  classifier \<open>should_translate\<close> has no test for the target language and accepts such a
  fragment whenever it is not blank.
\<close>

theorem polish_only_classifiers:
  assumes "\<forall>c\<in>set text. \<not> isspace c \<longrightarrow> pl_char c"
  shows "\<not> should_translate_comment env text \<and>
         (should_translate text \<longleftrightarrow> (\<exists>c\<in>set text. \<not> isspace c))"
proof (cases "strip text = []")
  case True
  then show ?thesis
    using strip_nonempty_iff[of "text"]
    by (simp add: should_translate_comment_def should_translate_def)
next
  case False
  then obtain c cs where t: "strip text = c # cs" by (cases "strip text") auto
  have "\<not> isspace c" using strip_hd[OF False] t by simp
  moreover have "c \<in> set text" using set_strip[of "text"] t by auto
  ultimately have pl: "pl_char c" using assms by blast
  have a: "PL_CHARS_RE (strip text)" using pl t by (simp add: PL_CHARS_RE_def)
  have b: "\<not> URL_RE (strip text)" using pl_not_url[OF pl] t by simp
  have c: "\<not> prefix (u ''{{'') (strip text)" using pl_char_facts(4)[OF pl] t by (simp add: u_def)
  have d: "HAS_LETTER_RE (strip text)" using pl_char_facts(1)[OF pl] t by (simp add: HAS_LETTER_RE_def)
  have e: "\<exists>c\<in>set text. \<not> isspace c" using False strip_nonempty_iff by blast
  show ?thesis using a b c d e False
    by (simp add: should_translate_comment_def should_translate_def Let_def)
qed

theorem polish_only_classifiers_witness:
  "list_all (\<lambda>c. isspace c \<or> pl_char c) [0x20, 0x17C, 0xF3, 0x142, 0x107] \<and>
   \<not> should_translate_comment latin_env [0x20, 0x17C, 0xF3, 0x142, 0x107] \<and>
   should_translate [0x20, 0x17C, 0xF3, 0x142, 0x107]"
proof -
  have a: "list_all (\<lambda>c. isspace c \<or> pl_char c) [0x20, 0x17C, 0xF3, 0x142, 0x107]"
    by (simp add: isspace_def pl_char_def)
  then have b: "\<forall>c\<in>set [0x20, 0x17C, 0xF3, 0x142, 0x107]. \<not> isspace c \<longrightarrow> pl_char c"
    unfolding list_all_iff by blast
  have c: "\<exists>c\<in>set [0x20, 0x17C, 0xF3, 0x142, 0x107]. \<not> isspace c"
    by (simp add: isspace_def)
  show ?thesis
    using polish_only_classifiers[OF b, of latin_env] a c by blast
qed

theorem should_translate_polish_counterexample:
  "list_all pl_char [0x17C, 0xF3, 0x142, 0x107] \<and> should_translate [0x17C, 0xF3, 0x142, 0x107]"
  by (simp add: pl_char_def should_translate_def strip_def isspace_def URL_RE_def u_def
      HAS_LETTER_RE_def ci_eq_def ci_lower_def)

lemma isspace_not_letter: "isspace c \<Longrightarrow> \<not> ascii_letter c"
  by (auto simp: isspace_def ascii_letter_def)

lemma findall_words_blank:
  "\<forall>c\<in>set ws. isspace c \<Longrightarrow> findall_words cur ws = (if 2 \<le> length cur then [cur] else [])"
  by (induction ws arbitrary: cur) (auto simp: isspace_not_letter)

lemma findall_words_lead:
  "\<forall>c\<in>set ws. isspace c \<Longrightarrow> findall_words [] (ws @ s) = findall_words [] s"
  by (induction ws) (auto simp: isspace_not_letter)

lemma findall_words_trail:
  "\<forall>c\<in>set ws. isspace c \<Longrightarrow> findall_words cur (s @ ws) = findall_words cur s"
  by (induction s arbitrary: cur) (auto simp: findall_words_blank)

lemma WORD_RE_findall_strip: "WORD_RE_findall (strip s) = WORD_RE_findall s"
proof (cases "\<exists>c\<in>set s. \<not> isspace c")
  case True
  let ?l = "takeWhile isspace s" and ?t = "rev (takeWhile isspace (rev s))"
  have l: "\<forall>c\<in>set ?l. isspace c" by (meson set_takeWhileD)
  have t: "\<forall>c\<in>set ?t. isspace c" by (metis set_rev set_takeWhileD)
  have "findall_words [] s = findall_words [] (?l @ (strip s @ ?t))"
    using strip_decomp(1)[OF True] by simp
  also have "\<dots> = findall_words [] (strip s @ ?t)" using l by (rule findall_words_lead)
  also have "\<dots> = findall_words [] (strip s)" using t by (rule findall_words_trail)
  finally show ?thesis by (simp add: WORD_RE_findall_def)
next
  case False
  then have b: "\<forall>c\<in>set s. isspace c" by blast
  then have "strip s = []" by (rule strip_blank)
  then show ?thesis using findall_words_blank[OF b, of "[]"] by (simp add: WORD_RE_findall_def)
qed

lemma english_score_strip: "english_score (strip s) = english_score s"
  by (simp add: english_score_def WORD_RE_findall_strip)

lemma findall_words_length:
  "2 * length (findall_words cur t) \<le> length cur + length t"
proof (induction t arbitrary: cur)
  case Nil
  then show ?case by simp
next
  case (Cons c cs)
  show ?case
  proof (cases "ascii_letter c")
    case True
    then show ?thesis using Cons[of "cur @ [c]"] by simp
  next
    case False
    then show ?thesis using Cons[of "[]"] by simp
  qed
qed

lemma english_hits_le: "fst (english_score t) \<le> length (WORD_RE_findall t)"
  by (simp add: english_score_def Let_def)

lemma findall_words_min: "w \<in> set (findall_words cur t) \<Longrightarrow> 2 \<le> length w"
  by (induction t arbitrary: cur) (auto split: if_splits)

lemma hint_a_never_counted: "u ''a'' \<notin> set (map ascii_lower (WORD_RE_findall core))"
proof
  assume "u ''a'' \<in> set (map ascii_lower (WORD_RE_findall core))"
  then obtain w where w: "w \<in> set (findall_words [] core)" "ascii_lower w = u ''a''"
    by (auto simp: WORD_RE_findall_def)
  from findall_words_min[OF w(1)] have "2 \<le> length (ascii_lower w)" by (simp add: ascii_lower_def)
  then show False using w(2) by (simp add: u_def)
qed

lemma hits_accept:
  assumes "2 \<le> fst (english_score core)"
  shows "should_translate_comment env core \<longleftrightarrow>
           length (strip core) \<le> 500 \<and> \<not> URL_RE_cc (strip core) \<and> \<not> PL_CHARS_RE (strip core)"
proof -
  let ?t = "strip core"
  have h: "2 \<le> fst (english_score ?t)" using assms by (simp add: english_score_strip)
  then have w: "2 \<le> length (WORD_RE_findall ?t)" using english_hits_le[of ?t] by linarith
  have "2 * length (WORD_RE_findall ?t) \<le> length ?t"
    using findall_words_length[of "[]" ?t] by (simp add: WORD_RE_findall_def)
  then have len: "4 \<le> length ?t" using w by linarith
  then have ne: "?t \<noteq> []" by auto
  have wne: "WORD_RE_findall ?t \<noteq> []" using w by auto
  show ?thesis
    using h len ne wne by (auto simp: should_translate_comment_def Let_def)
qed

lemma single_letter_hints_rejected:
  "fst (english_score (u ''a cat, a dog'')) = 0 \<and>
   \<not> should_translate_comment env (u ''a cat, a dog'')"
  by (simp add: should_translate_comment_def strip_def isspace_def u_def URL_RE_cc_def
      PL_CHARS_RE_def pl_char_def WORD_RE_findall_def ascii_letter_def english_score_def
      ascii_lower_def EN_HINT_WORDS_def ci_eq_def ci_lower_def Let_def is_mostly_code_like_def
      contains_def letter_count_def ident_start_def ident_char_def ascii_digit_def)

text \<open>
  C5 (amended). The hint words of a comment fragment are counted by \<open>english_score\<close> among the
  words that \<open>WORD_RE\<close> finds, the runs of two or more ASCII letters; the one-letter entry
  \<open>a\<close> of \<open>EN_HINT_WORDS\<close> is therefore never counted, and \<open>a cat, a dog\<close> has no hit and is
  rejected. A fragment for which \<open>english_score\<close> counts at least two hits is accepted by
  \<open>should_translate_comment\<close> exactly when its trimmed text has at most 500 characters,
  contains no URL and contains no Polish letter; these three guards come before the count.
\<close>

theorem hint_words_accept:
  "(2 \<le> fst (english_score core) \<longrightarrow>
      (should_translate_comment env core \<longleftrightarrow>
         length (strip core) \<le> 500 \<and> \<not> URL_RE_cc (strip core) \<and> \<not> PL_CHARS_RE (strip core))) \<and>
   u ''a'' \<notin> set (map ascii_lower (WORD_RE_findall core)) \<and>
   fst (english_score (u ''a cat, a dog'')) = 0 \<and>
   \<not> should_translate_comment env (u ''a cat, a dog'')"
  using hits_accept[of core env] hint_a_never_counted[of core] single_letter_hints_rejected[of env]
  by blast

theorem hint_words_accept_witness:
  "2 \<le> fst (english_score (u ''the value is set'')) \<and>
   should_translate_comment latin_env (u ''the value is set'') \<and>
   length (strip (u ''the value is set'')) \<le> 500 \<and>
   \<not> URL_RE_cc (strip (u ''the value is set'')) \<and>
   \<not> PL_CHARS_RE (strip (u ''the value is set'')) \<and>
   \<not> should_translate_comment latin_env (u ''a cat, a dog'')"
proof -
  have a: "2 \<le> fst (english_score (u ''the value is set''))" by (simp add: cls_defs)
  have b: "should_translate_comment latin_env (u ''the value is set'')" by (simp add: cls_defs)
  show ?thesis
    using hint_words_accept[of "u ''the value is set''" latin_env] a b by blast
qed

theorem hint_words_url_counterexample:
  "2 \<le> fst (english_score (u ''see the value at www.x.y'')) \<and>
   \<not> should_translate_comment latin_env (u ''see the value at www.x.y'')"
  by (simp add: cls_defs)

section \<open>Batches\<close>

lemma encoded_len_Nil: "encoded_len [] = length MEND"
  by (simp add: encoded_len_def build_payload_def)

lemma encoded_len_snoc:
  "encoded_len (b @ [(i, t)]) = encoded_len b + length (marker (length b)) + length t"
  by (simp add: encoded_len_def build_payload_def enumerate_append_eq)

lemma dec_nonempty: "1 \<le> length (dec n)"
  by (subst dec.simps) simp

lemma marker_length_mono: "length (marker 0) \<le> length (marker n)"
proof -
  have "length (dec 0) = 1" by (subst dec.simps) simp
  then show ?thesis using dec_nonempty[of n] by (simp add: marker_def)
qed

lemma build_batches_loop_concat:
  "concat (build_batches_loop m items batches current cl) = concat batches @ current @ items"
  by (induction m items batches current cl rule: build_batches_loop.induct) (auto simp: Let_def)

lemma build_batches_cc_loop_concat:
  "concat (build_batches_cc_loop m items batches current cl) = concat batches @ current @ items"
  by (induction m items batches current cl rule: build_batches_cc_loop.induct) (auto simp: Let_def)

lemma build_batches_loop_nonempty:
  "[] \<notin> set batches \<Longrightarrow> [] \<notin> set (build_batches_loop m items batches current cl)"
  by (induction m items batches current cl rule: build_batches_loop.induct) (auto simp: Let_def)

lemma build_batches_cc_loop_nonempty:
  "[] \<notin> set batches \<Longrightarrow> [] \<notin> set (build_batches_cc_loop m items batches current cl)"
  by (induction m items batches current cl rule: build_batches_cc_loop.induct) (auto simp: Let_def)

lemma build_batches_loop_bound:
  assumes "list_all (within_budget m) batches" "encoded_len current \<le> cl" "current = [] \<or> within_budget m current"
  shows "list_all (within_budget m) (build_batches_loop m items batches current cl)"
  using assms
proof (induction m items batches current cl rule: build_batches_loop.induct)
  case (1 m batches current cl)
  then show ?case by auto
next
  case (2 m idx tx items batches current cl)
  let ?extra = "length (marker (length current)) + length tx"
  show ?case
  proof (cases "current \<noteq> [] \<and> m < cl + ?extra")
    case True
    have a: "list_all (within_budget m) (batches @ [current])" using 2(3,5) True by simp
    have b: "encoded_len [(idx, tx)] \<le> length MEND + (length (marker 0) + length tx)"
      using encoded_len_snoc[of "[]" idx tx] by (simp add: encoded_len_Nil)
    have c: "within_budget m [(idx, tx)]" by (simp add: within_budget_def)
    show ?thesis using True 2(1)[OF refl True refl a b] c by (simp add: Let_def)
  next
    case False
    have b: "encoded_len (current @ [(idx, tx)]) \<le> cl + ?extra"
      using 2(4) by (simp add: encoded_len_snoc)
    have c: "within_budget m (current @ [(idx, tx)])"
    proof (cases "current = []")
      case True then show ?thesis by (simp add: within_budget_def)
    next
      case F: False
      then have "cl + ?extra \<le> m" using False by simp
      then show ?thesis using b by (simp add: within_budget_def)
    qed
    show ?thesis using False 2(2)[OF refl False 2(3) b] c by (auto simp: Let_def)
  qed
qed

lemma build_batches_cc_loop_bound:
  assumes "list_all (within_budget m) batches" "encoded_len current \<le> cl" "current = [] \<or> within_budget m current"
  shows "list_all (within_budget m) (build_batches_cc_loop m items batches current cl)"
  using assms
proof (induction m items batches current cl rule: build_batches_cc_loop.induct)
  case (1 m batches current cl)
  then show ?case by auto
next
  case (2 m idx tx items batches current cl)
  let ?extra = "length (marker (length current)) + length tx"
  show ?case
  proof (cases "current \<noteq> [] \<and> m < cl + ?extra")
    case True
    have a: "list_all (within_budget m) (batches @ [current])" using 2(3,5) True by simp
    have b: "encoded_len [(idx, tx)] \<le> length MEND + ?extra"
      using encoded_len_snoc[of "[]" idx tx] marker_length_mono[of "length current"]
      by (simp add: encoded_len_Nil)
    have c: "within_budget m [(idx, tx)]" by (simp add: within_budget_def)
    show ?thesis using True 2(1)[OF refl True a b] c by (simp add: Let_def)
  next
    case False
    have b: "encoded_len (current @ [(idx, tx)]) \<le> cl + ?extra"
      using 2(4) by (simp add: encoded_len_snoc)
    have c: "within_budget m (current @ [(idx, tx)])"
    proof (cases "current = []")
      case True then show ?thesis by (simp add: within_budget_def)
    next
      case F: False
      then have "cl + ?extra \<le> m" using False by simp
      then show ?thesis using b by (simp add: within_budget_def)
    qed
    show ?thesis using False 2(2)[OF refl False 2(3) b] c by (auto simp: Let_def)
  qed
qed

text \<open>
  C9 (amended). \<open>build_batches\<close> (in both scripts) cuts the list of \<open>(index, fragment)\<close> pairs
  into non-empty consecutive batches: their concatenation is the input, in order, so no
  fragment is split. Every batch with two or more fragments has an encoded length (markers,
  fragments and end marker) of at most the budget; a batch may exceed the budget only when it
  consists of a single fragment.
\<close>

theorem build_batches_partition:
  "concat (build_batches items max_len) = items \<and>
   [] \<notin> set (build_batches items max_len) \<and>
   list_all (within_budget max_len) (build_batches items max_len) \<and>
   concat (build_batches_cc items max_len) = items \<and>
   [] \<notin> set (build_batches_cc items max_len) \<and>
   list_all (within_budget max_len) (build_batches_cc items max_len)"
proof -
  have e: "encoded_len ([] :: ('a \<times> ustr) list) \<le> length MEND" by (simp add: encoded_len_Nil)
  show ?thesis
    unfolding build_batches_def build_batches_cc_def
    using build_batches_loop_bound[of max_len "[]" "[]" "length MEND" items, OF _ e]
      build_batches_cc_loop_bound[of max_len "[]" "[]" "length MEND" items, OF _ e]
    by (simp add: build_batches_loop_concat build_batches_cc_loop_concat
        build_batches_loop_nonempty build_batches_cc_loop_nonempty)
qed

theorem build_batches_partition_witness:
  "build_batches [(0::nat, u ''ab''), (1, u ''cde''), (2, u ''f'')] 30 =
     [[(0, u ''ab'')], [(1, u ''cde''), (2, u ''f'')]] \<and>
   encoded_len [(1::nat, u ''cde''), (2, u ''f'')] = 30 \<and>
   list_all (within_budget 30) (build_batches [(0::nat, u ''ab''), (1, u ''cde''), (2, u ''f'')] 30) \<and>
   concat (build_batches_cc [(0::nat, u ''ab''), (1, u ''cde''), (2, u ''f'')] 30) =
     [(0, u ''ab''), (1, u ''cde''), (2, u ''f'')]"
proof -
  have d: "dec 0 = [0x30]" "dec 1 = [0x31]" "dec (Suc 0) = [0x31]" "dec 2 = [0x32]"
    by (simp_all add: dec.simps)
  have a: "build_batches [(0::nat, u ''ab''), (1, u ''cde''), (2, u ''f'')] 30 =
     [[(0, u ''ab'')], [(1, u ''cde''), (2, u ''f'')]]"
    by (simp add: build_batches_def marker_def MEND_def u_def d Let_def)
  have b: "encoded_len [(1::nat, u ''cde''), (2, u ''f'')] = 30"
    by (simp add: encoded_len_def build_payload_def enumerate_eq_zip upt_rec marker_def MEND_def u_def d)
  show ?thesis
    using build_batches_partition[of "[(0::nat, u ''ab''), (1, u ''cde''), (2, u ''f'')]" 30] a b
    by simp
qed

theorem build_batches_oversize_counterexample:
  "build_batches [(0::nat, replicate 3800 0x61)] 3800 = [[(0, replicate 3800 0x61)]] \<and>
   encoded_len [(0::nat, replicate 3800 0x61)] = 3818"
proof -
  have d: "dec 0 = [0x30]" by (simp add: dec.simps)
  show ?thesis
    by (simp add: build_batches_def encoded_len_def build_payload_def marker_def MEND_def u_def d
        Let_def)
qed

section \<open>The payload and its parse\<close>

lemma marker_mk: "marker i = mk (dec i)"
  by (simp add: marker_def mk_def u_def)

lemma MEND_mk: "MEND = mk [0x45, 0x4E, 0x44]"
  by (simp add: MEND_def mk_def u_def)

lemma find_at_skip:
  "\<forall>q<length xs. \<not> prefix sub (drop q (xs @ ys)) \<Longrightarrow>
     find_at sub (xs @ ys) k = find_at sub ys (k + length xs)"
proof (induction xs arbitrary: k)
  case Nil
  then show ?case by simp
next
  case (Cons c cs)
  have a: "\<not> prefix sub ((c # cs) @ ys)" using Cons.prems by (metis drop0 length_greater_0_conv list.distinct(1))
  have b: "\<forall>q<length cs. \<not> prefix sub (drop q (cs @ ys))"
  proof (intro allI impI)
    fix q assume "q < length cs"
    then have "Suc q < length (c # cs)" by simp
    then have "\<not> prefix sub (drop (Suc q) ((c # cs) @ ys))" using Cons.prems by blast
    then show "\<not> prefix sub (drop q (cs @ ys))" by simp
  qed
  show ?case using a Cons.IH[OF b, of "Suc k"] by simp
qed

lemma find_at_here: "prefix sub ys \<Longrightarrow> find_at sub ys k = Some k"
  by (cases ys) auto

lemma contains_iff: "contains sub s \<longleftrightarrow> (\<exists>q\<le>length s. prefix sub (drop q s))"
proof -
  have "search P s \<longleftrightarrow> (\<exists>q\<le>length s. P (drop q s))" for P
  proof (induction s)
    case Nil
    then show ?case by simp
  next
    case (Cons c cs)
    show ?case
    proof
      assume "search P (c # cs)"
      then consider "P (c # cs)" | "search P cs" by auto
      then show "\<exists>q\<le>length (c # cs). P (drop q (c # cs))"
      proof cases
        case 1
        then show ?thesis by (intro exI[of _ 0]) simp
      next
        case 2
        then obtain q where "q \<le> length cs" "P (drop q cs)" using Cons.IH by blast
        then show ?thesis by (intro exI[of _ "Suc q"]) simp
      qed
    next
      assume "\<exists>q\<le>length (c # cs). P (drop q (c # cs))"
      then obtain q where q: "q \<le> length (c # cs)" "P (drop q (c # cs))" by blast
      show "search P (c # cs)"
      proof (cases q)
        case 0
        then show ?thesis using q by simp
      next
        case (Suc r)
        then show ?thesis using q Cons.IH by auto
      qed
    qed
  qed
  then show ?thesis by (simp add: contains_def)
qed

lemma drop_append_le: "r \<le> length xs \<Longrightarrow> drop r (xs @ ys) = drop r xs @ ys"
  by simp

text \<open>An occurrence that starts inside a marker is the marker itself.\<close>

lemma body_prefix_eq:
  assumes "0x3E \<notin> set b" "0x3E \<notin> set b'" "prefix (b @ [0x3E, 0x3E, 0x3E]) (b' @ [0x3E, 0x3E, 0x3E] @ R)"
  shows "b = b'"
  using assms
proof (induction b arbitrary: b')
  case Nil
  then show ?case by (cases b') auto
next
  case (Cons x xs)
  then show ?case by (cases b') auto
qed

lemma occ_in_marker:
  assumes q: "q < length (mk b')" and p: "prefix (mk b) (drop q (mk b' @ R))"
    and b: "0x3C \<notin> set b" "0x3E \<notin> set b" and b': "0x3C \<notin> set b'" "0x3E \<notin> set b'"
  shows "q = 0 \<and> b = b'"
proof -
  consider "q = 0" | "q = 1" | "q = 2" | "3 \<le> q" by linarith
  then show ?thesis
  proof cases
    case 1
    then have "prefix (b @ [0x3E, 0x3E, 0x3E]) (b' @ [0x3E, 0x3E, 0x3E] @ R)"
      using p by (simp add: mk_def)
    then show ?thesis using 1 body_prefix_eq b b' by blast
  next
    case 2
    then show ?thesis using p by (simp add: mk_def)
  next
    case 3
    then have "drop q (mk b' @ R) = [0x3C, 0x4D] @ b' @ [0x3E, 0x3E, 0x3E] @ R"
      by (simp add: mk_def numeral_2_eq_2)
    then show ?thesis using p by (simp add: mk_def)
  next
    case 4
    let ?tl = "[0x4D] @ b' @ [0x3E, 0x3E, 0x3E]"
    have m: "mk b' = [0x3C, 0x3C, 0x3C] @ ?tl" by (simp add: mk_def)
    have q3: "q - 3 < length ?tl" using q 4 by (simp add: mk_def)
    obtain r where r: "q = Suc (Suc (Suc r))" using 4
      by (metis Suc_le_D Suc_le_mono numeral_3_eq_3)
    have "drop r (?tl @ R) = drop r ?tl @ R" using q3 r by (intro drop_append_le) simp
    moreover have "drop q (mk b' @ R) = drop r (?tl @ R)" unfolding m r by simp
    moreover have "q - 3 = r" using r by simp
    ultimately have "drop q (mk b' @ R) = drop (q - 3) ?tl @ R" by simp
    moreover have "drop (q - 3) ?tl \<noteq> []" using q3 by simp
    moreover have "hd (drop (q - 3) ?tl) \<in> set ?tl"
      using q3 by (metis (no_types, lifting) hd_drop_conv_nth nth_mem)
    ultimately obtain c cs where "drop q (mk b' @ R) = c # cs" "c \<in> set ?tl"
      by (metis append_Cons list.exhaust_sel)
    moreover have "0x3C \<notin> set ?tl" using b' by simp
    ultimately show ?thesis using p by (auto simp: mk_def)
  qed
qed

text \<open>An occurrence that starts inside a fragment lies within the fragment.\<close>

lemma occ_in_fragment:
  assumes q: "q < length t" and p: "prefix (mk b) (drop q (t @ W))"
    and W: "prefix [0x3C, 0x3C, 0x3C] W" and b: "0x3C \<notin> set b"
  shows "contains (mk b) t"
proof -
  let ?zs = "drop q t"
  have zs: "?zs \<noteq> []" using q by simp
  have "prefix (mk b) (?zs @ W)" using p q by simp
  then consider "prefix (mk b) ?zs" | us where "mk b = ?zs @ us" "prefix us W" "us \<noteq> []"
    unfolding prefix_append by (metis append_Nil2 prefix_order.order_refl)
  then show ?thesis
  proof cases
    case 1
    then show ?thesis unfolding contains_iff using q by (intro exI[of _ q]) simp
  next
    case 2
    obtain W' where W': "W = [0x3C, 0x3C, 0x3C] @ W'" using W by (auto simp: prefix_def)
    have hd_us: "hd us = 0x3C" using 2(2,3) W' by (cases us) auto
    obtain z zs' where z: "?zs = z # zs'" using zs by (cases ?zs) auto
    show ?thesis
    proof (cases zs')
      case Nil
      then have "us = [0x3C, 0x3C, 0x4D] @ b @ [0x3E, 0x3E, 0x3E]" using 2(1) z by (simp add: mk_def)
      then show ?thesis using 2(2) W' by simp
    next
      case (Cons z2 zs2)
      show ?thesis
      proof (cases zs2)
        case Nil
        then have "us = [0x3C, 0x4D] @ b @ [0x3E, 0x3E, 0x3E]" using 2(1) z Cons by (simp add: mk_def)
        then show ?thesis using 2(2) W' by simp
      next
        case (Cons z3 zs3)
        then have "[0x4D] @ b @ [0x3E, 0x3E, 0x3E] = zs3 @ us"
          using 2(1) z \<open>zs' = z2 # zs2\<close> by (simp add: mk_def)
        then have "set us \<subseteq> set ([0x4D] @ b @ [0x3E, 0x3E, 0x3E])"
          by (metis set_append sup_ge2)
        moreover have "hd us \<in> set us" using 2(3) by simp
        ultimately have "hd us \<noteq> 0x3C" using b by auto
        then show ?thesis using hd_us by simp
      qed
    qed
  qed
qed


lemma segs_simps [simp]: "segs [] = []" "segs ((b, t) # ps) = mk b @ t @ segs ps"
  by (simp_all add: segs_def)

lemma segs_append: "segs (ps @ qs) = segs ps @ segs qs"
  by (simp add: segs_def)

lemma tagged_simps [simp]: "tagged k [] = []" "tagged k (t # ts) = (dec k, t) # tagged (Suc k) ts"
  by (simp_all add: tagged_def)

lemma tagged_append: "tagged k (xs @ ys) = tagged k xs @ tagged (k + length xs) ys"
  by (simp add: tagged_def enumerate_append_eq)

lemma build_payload_segs: "build_payload texts = segs (tagged 0 texts) @ MEND"
proof -
  have "(\<lambda>(i, t). marker i @ t) = (\<lambda>(b, t). mk b @ t) \<circ> (\<lambda>(i, t). (dec i, t))"
    by (auto simp: marker_mk)
  then show ?thesis by (simp add: build_payload_def segs_def tagged_def)
qed

lemma dec_digits: "c \<in> set (dec n) \<Longrightarrow> 0x30 \<le> c \<and> c \<le> 0x39"
proof (induction n rule: dec.induct)
  case (1 n)
  show ?case
  proof (cases "n < 10")
    case True
    then show ?thesis using 1(2) by (subst (asm) dec.simps) simp
  next
    case False
    then have "c \<in> set (dec (n div 10)) \<or> c = 0x30 + n mod 10"
      using 1(2) by (subst (asm) dec.simps) auto
    then show ?thesis using 1(1)[OF False] by auto
  qed
qed

lemma dec_no_angle: "0x3C \<notin> set (dec n)" "0x3E \<notin> set (dec n)"
  using dec_digits[of "0x3C" n] dec_digits[of "0x3E" n] by auto

lemma undec_dec: "foldl (\<lambda>a d. 10 * a + (d - 0x30)) 0 (dec n) = n"
proof (induction n rule: dec.induct)
  case (1 n)
  show ?case
  proof (cases "n < 10")
    case True
    then show ?thesis by (subst dec.simps) simp
  next
    case False
    then show ?thesis using 1[OF False] by (subst dec.simps) simp
  qed
qed

lemma dec_inj: "dec i = dec j \<Longrightarrow> i = j"
  by (metis undec_dec)

lemma mk_prefix3: "prefix [0x3C, 0x3C, 0x3C] (mk b @ R)"
  by (simp add: mk_def)

lemma segs_prefix3: "prefix [0x3C, 0x3C, 0x3C] W \<Longrightarrow> prefix [0x3C, 0x3C, 0x3C] (segs ps @ W)"
  by (cases ps) (auto simp: mk_def)

lemma no_occ_segs:
  assumes b: "0x3C \<notin> set b" "0x3E \<notin> set b"
    and ps: "\<forall>(b', t)\<in>set ps. 0x3C \<notin> set b' \<and> 0x3E \<notin> set b' \<and> b' \<noteq> b \<and> \<not> contains (mk b) t"
    and W: "prefix [0x3C, 0x3C, 0x3C] W"
  shows "\<forall>q<length (segs ps). \<not> prefix (mk b) (drop q (segs ps @ W))"
  using ps
proof (induction ps)
  case Nil
  then show ?case by simp
next
  case (Cons p ps)
  obtain b' t where p: "p = (b', t)" by (cases p)
  let ?W' = "segs ps @ W"
  have W': "prefix [0x3C, 0x3C, 0x3C] ?W'" using W by (rule segs_prefix3)
  have hb': "0x3C \<notin> set b'" "0x3E \<notin> set b'" "b' \<noteq> b" "\<not> contains (mk b) t"
    using Cons.prems p by auto
  have IH: "\<forall>q<length (segs ps). \<not> prefix (mk b) (drop q ?W')"
    using Cons.IH Cons.prems by simp
  show ?case
  proof (intro allI impI)
    fix q assume q: "q < length (segs (p # ps))"
    show "\<not> prefix (mk b) (drop q (segs (p # ps) @ W))"
    proof
      assume occ: "prefix (mk b) (drop q (segs (p # ps) @ W))"
      have full: "segs (p # ps) @ W = mk b' @ (t @ ?W')" using p by simp
      consider "q < length (mk b')" | "length (mk b') \<le> q" "q - length (mk b') < length t"
        | "length (mk b') \<le> q" "length t \<le> q - length (mk b')" by linarith
      then show False
      proof cases
        case 1
        then show ?thesis using occ_in_marker[OF 1 _ b hb'(1,2), of "t @ ?W'"] occ full hb'(3) by simp
      next
        case 2
        have "drop q (mk b' @ (t @ ?W')) = drop (q - length (mk b')) (t @ ?W')" using 2(1) by simp
        then have "prefix (mk b) (drop (q - length (mk b')) (t @ ?W'))" using occ full by simp
        then show ?thesis using occ_in_fragment[OF 2(2) _ W' b(1)] hb'(4) by blast
      next
        case 3
        let ?r = "q - length (mk b') - length t"
        have "drop q (mk b' @ (t @ ?W')) = drop ?r ?W'" using 3 by simp
        moreover have "?r < length (segs ps)" using q 3 p by simp
        ultimately show ?thesis using occ full IH by simp
      qed
    qed
  qed
qed


lemma in_tagged:
  "(b, s) \<in> set (tagged k xs) \<Longrightarrow> \<exists>j. k \<le> j \<and> j < k + length xs \<and> b = dec j \<and> s \<in> set xs"
  by (fastforce simp: tagged_def in_set_enumerate_eq)

lemma parse_item_ok:
  assumes texts: "texts = xs @ t # ys"
    and clean: "\<forall>s\<in>set texts. \<not> contains MEND s \<and> (\<forall>i<length texts. \<not> contains (marker i) s)"
  shows "parse_item (build_payload texts) (length texts) (length xs) = Some t"
proof -
  let ?i = "length xs" and ?n = "length texts"
  let ?pre = "segs (tagged 0 xs)"
  let ?post = "segs (tagged (Suc ?i) ys) @ MEND"
  let ?nxt = "if ?i + 1 < ?n then marker (?i + 1) else MEND"
  let ?payload = "build_payload texts"
  have i_lt: "?i < ?n" using texts by simp
  have payload: "?payload = ?pre @ mk (dec ?i) @ t @ ?post"
    by (simp add: build_payload_segs texts tagged_append segs_append)
  obtain b where b: "?nxt = mk b" "0x3C \<notin> set b" "0x3E \<notin> set b"
    using dec_no_angle[of "?i + 1"] by (cases "?i + 1 < ?n") (auto simp: marker_mk MEND_mk)
  have nxt_post: "prefix ?nxt ?post"
  proof (cases ys)
    case Nil
    then show ?thesis using texts by simp
  next
    case (Cons y ys')
    then show ?thesis using texts by (simp add: marker_mk)
  qed
  have t_clean: "\<not> contains ?nxt t"
  proof (cases "?i + 1 < ?n")
    case True
    then show ?thesis using clean texts by auto
  next
    case False
    then show ?thesis using clean texts by auto
  qed
  \<comment> \<open>the marker of position i is found at the end of the earlier segments\<close>
  have pre_ok: "\<forall>(b', s)\<in>set (tagged 0 xs).
      0x3C \<notin> set b' \<and> 0x3E \<notin> set b' \<and> b' \<noteq> dec ?i \<and> \<not> contains (mk (dec ?i)) s"
  proof (clarify, intro conjI)
    fix b' s assume m: "(b', s) \<in> set (tagged 0 xs)"
    then obtain j where j: "j < ?i" "b' = dec j" "s \<in> set xs" using in_tagged by fastforce
    show "0x3C \<notin> set b'" "0x3E \<notin> set b'" using j dec_no_angle by auto
    show "b' \<noteq> dec ?i" using j dec_inj by auto
    have "s \<in> set texts" using j texts by simp
    then show "\<not> contains (mk (dec ?i)) s" using clean i_lt by (auto simp: marker_mk)
  qed
  have "find_at (mk (dec ?i)) (?pre @ (mk (dec ?i) @ t @ ?post)) 0 =
          find_at (mk (dec ?i)) (mk (dec ?i) @ t @ ?post) (0 + length ?pre)"
    by (rule find_at_skip) (rule no_occ_segs[OF dec_no_angle pre_ok mk_prefix3])
  also have "\<dots> = Some (length ?pre)" by (simp add: find_at_here)
  finally have step1: "py_find ?payload (marker ?i) 0 = Some (length ?pre)"
    by (simp add: py_find_def payload marker_mk)
  \<comment> \<open>the next marker is found right after the fragment\<close>
  let ?start = "length ?pre + length (marker ?i)"
  have drop_start: "drop ?start ?payload = t @ ?post" by (simp add: payload marker_mk)
  have start_le: "\<not> length ?payload < ?start" by (simp add: payload marker_mk)
  have n3: "prefix [0x3C, 0x3C, 0x3C] ?post"
  proof -
    obtain R where "?post = mk b @ R" using nxt_post unfolding b(1) by (auto simp: prefix_def)
    then show ?thesis using mk_prefix3[of b R] by simp
  qed
  have no_occ: "\<forall>q<length t. \<not> prefix ?nxt (drop q (t @ ?post))"
    using occ_in_fragment[OF _ _ n3 b(2)] t_clean unfolding b(1) by blast
  have "find_at ?nxt (t @ ?post) ?start = find_at ?nxt ?post (?start + length t)"
    using no_occ by (rule find_at_skip)
  also have "\<dots> = Some (?start + length t)" using nxt_post by (rule find_at_here)
  finally have step2: "py_find ?payload ?nxt ?start = Some (?start + length t)"
    using start_le unfolding py_find_def drop_start by simp
  have "take (?start + length t) ?payload = ?pre @ mk (dec ?i) @ t"
    by (simp add: payload marker_mk)
  then have step3: "slice ?payload ?start (?start + length t) = t"
    by (simp add: slice_def marker_mk)
  show ?thesis
    unfolding parse_item_def Let_def step1 option.case step2 step3 ..
qed

lemma parse_items_nth:
  "\<forall>i\<in>set is. parse_item p n i = Some (texts ! i) \<Longrightarrow>
     parse_items p n is = Some (map ((!) texts) is)"
  by (induction "is") auto

lemma contains_suffix: "contains sub (xs @ sub)"
  unfolding contains_iff by (intro exI[of _ "length xs"]) simp

text \<open>
  C2 (amended). For every list of fragments none of which contains the end marker or one of
  the positional markers of the batch, whatever their length, the parse of
  \<open>translate_group_payload\<close> applied to the payload built from them (the backend returning
  the payload unchanged) recovers exactly the fragments, in order.
\<close>

theorem payload_roundtrip:
  assumes "\<forall>s\<in>set texts. \<not> contains MEND s \<and> (\<forall>i<length texts. \<not> contains (marker i) s)"
  shows "parse_payload (length texts) (build_payload texts) = Some texts \<and>
         translate_group_payload (\<lambda>s x. (Some x, s)) s texts = (Return (Some texts), s)"
proof -
  have "parse_item (build_payload texts) (length texts) i = Some (texts ! i)"
    if "i < length texts" for i
  proof -
    have "texts = take i texts @ texts ! i # drop (Suc i) texts"
      using that by (simp add: id_take_nth_drop)
    from parse_item_ok[OF this assms] that show ?thesis by simp
  qed
  then have "parse_items (build_payload texts) (length texts) [0..<length texts] =
      Some (map ((!) texts) [0..<length texts])"
    by (intro parse_items_nth) simp
  moreover have "contains MEND (build_payload texts)"
    by (simp add: build_payload_def contains_suffix)
  ultimately show ?thesis by (simp add: parse_payload_def translate_group_payload_def map_nth)
qed

theorem payload_roundtrip_witness:
  "parse_payload 2 (build_payload [u ''ab'', u ''c'']) = Some [u ''ab'', u ''c''] \<and>
   \<not> contains MEND (u ''ab'') \<and> \<not> contains (marker 0) (u ''ab'') \<and>
   \<not> contains (marker 1) (u ''ab'') \<and> \<not> contains MEND (u ''c'') \<and>
   \<not> contains (marker 0) (u ''c'') \<and> \<not> contains (marker 1) (u ''c'')"
proof -
  have d: "dec 0 = [0x30]" "dec 1 = [0x31]" "dec (Suc 0) = [0x31]" by (simp_all add: dec.simps)
  have a: "\<not> contains MEND (u ''ab'') \<and> \<not> contains (marker 0) (u ''ab'') \<and>
   \<not> contains (marker 1) (u ''ab'') \<and> \<not> contains MEND (u ''c'') \<and>
   \<not> contains (marker 0) (u ''c'') \<and> \<not> contains (marker 1) (u ''c'')"
    by (simp add: contains_def MEND_def marker_def u_def d)
  then have h: "\<forall>s\<in>set [u ''ab'', u ''c'']. \<not> contains MEND s \<and>
      (\<forall>i<length [u ''ab'', u ''c'']. \<not> contains (marker i) s)"
    by (auto simp: less_Suc_eq)
  have l: "length [u ''ab'', u ''c''] = 2" by simp
  show ?thesis using payload_roundtrip[OF h, of "()"] a unfolding l by blast
qed

theorem payload_marker_counterexample:
  "length (build_payload [u ''a<<<M1>>>b'', u ''c'']) < 3800 \<and>
   parse_payload 2 (build_payload [u ''a<<<M1>>>b'', u ''c'']) = Some [u ''a'', u ''b<<<M1>>>c''] \<and>
   [u ''a'', u ''b<<<M1>>>c''] \<noteq> [u ''a<<<M1>>>b'', u ''c'']"
proof -
  have d: "dec 0 = [0x30]" "dec 1 = [0x31]" "dec (Suc 0) = [0x31]" by (simp_all add: dec.simps)
  show ?thesis
    by (simp add: parse_payload_def parse_item_def py_find_def build_payload_def contains_def
        slice_def MEND_def marker_def u_def d enumerate_eq_zip upt_rec Let_def)
qed

section \<open>The cache and the backend calls of translate_missing\<close>
















































section \<open>The spans of find_comment_spans\<close>

































end
